theory Spec2Isabelle
  imports Complex_Main "HOL-Library.Product_Lexorder"
begin

section \<open>Data model\<close>

text \<open>
  The notebook works on pandas frames fetched from the ECHO database. A row of a
  violation or stack-test table has the frame's index (\<open>pgm_sys_id\<close> or \<open>NPDES_ID\<close>),
  a date column that \<open>pd.to_datetime\<close> has turned into a timestamp, and the column the
  cell counts, whose entries may be null. The queries select the rows by a pattern on
  the date column, so no date is null. Timestamps are calendar dates; pandas timestamps
  lie between the years 1677 and 2262, so a year always prints with four digits.
\<close>

datatype date = Date (year: nat) (month: nat) (day: nat)

record 'v observation =
  ident :: string
  stamp :: date
  counted :: "'v option"

text \<open>A pandas float: a number, or NaN. Means are modelled exactly, over the rationals.\<close>

datatype fl = NaN | Num rat

text \<open>
  The exceptions a cell can end with: a label or column that is not there, and the
  failure of the bar chart on an empty frame (its Python class depends on the pandas
  version).
\<close>

datatype error = KeyError string | PlotError

definition date_key :: "date \<Rightarrow> nat \<times> nat \<times> nat" where
  "date_key d = (year d, month d, day d)"

definition valid_date :: "date \<Rightarrow> bool" where
  "valid_date d = (1 \<le> month d \<and> month d \<le> 12 \<and> year d < 10000)"

definition valid_obs :: "'v observation list \<Rightarrow> bool" where
  "valid_obs obs = list_all (\<lambda>r. valid_date (stamp r)) obs"

section \<open>The monthly trend cells\<close>

subsection \<open>\<open>groupby\<close>: one entry per distinct date, in ascending order\<close>

definition group_dates :: "'v observation list \<Rightarrow> date list" where
  "group_dates obs = sort_key date_key (remdups (map stamp obs))"

text \<open>\<open>data.groupby([DATE])[COL].count()\<close>: the non-null entries of the column, per date.\<close>

definition groupby_count :: "'v observation list \<Rightarrow> (date \<times> int) list" where
  "groupby_count obs =
     map (\<lambda>d. (d, int (length [r \<leftarrow> obs. stamp r = d \<and> counted r \<noteq> None]))) (group_dates obs)"

text \<open>\<open>fac.groupby([DATE]).agg({"NPDES_ID": "nunique"})\<close>: the distinct identifiers, per date.\<close>

definition groupby_nunique :: "'v observation list \<Rightarrow> (date \<times> int) list" where
  "groupby_nunique obs =
     map (\<lambda>d. (d, int (length (remdups (map ident [r \<leftarrow> obs. stamp r = d]))))) (group_dates obs)"

subsection \<open>\<open>resample('M').sum()\<close>\<close>

text \<open>
  Resampling a date-indexed series to months makes one bin for every calendar month
  from the month of the first timestamp to the month of the last one, and sums the
  entries of each bin; a bin with no entry sums to 0. A bin is named here by its year
  and month (pandas labels it with the last day of that month).
\<close>

definition month_index :: "date \<Rightarrow> nat" where
  "month_index d = 12 * year d + (month d - 1)"

definition resample_M_sum :: "(date \<times> int) list \<Rightarrow> ((nat \<times> nat) \<times> int) list" where
  "resample_M_sum s =
     (if s = [] then []
      else map (\<lambda>k. ((k div 12, k mod 12 + 1),
                      sum_list (map snd [e \<leftarrow> s. month_index (fst e) = k])))
             [month_index (fst (hd s)) ..< Suc (month_index (fst (last s)))])"

subsection \<open>Filter to one calendar month, and label\<close>

text \<open>\<open>stacks.loc[(stacks.index.month == 4)]\<close>; the notebook's month is always 4.\<close>

definition filter_month :: "nat \<Rightarrow> ((nat \<times> nat) \<times> int) list \<Rightarrow> ((nat \<times> nat) \<times> int) list" where
  "filter_month M s = [e \<leftarrow> s. snd (fst e) = M]"

definition digit :: "nat \<Rightarrow> char" where
  "digit n = ''0123456789'' ! (n mod 10)"

text \<open>\<open>index.strftime('%Y-%m')\<close>\<close>

definition strftime_Ym :: "nat \<times> nat \<Rightarrow> string" where
  "strftime_Ym p =
     [digit (fst p div 1000), digit (fst p div 100), digit (fst p div 10), digit (fst p),
      CHR ''-'', digit (snd p div 10), digit (snd p)]"

definition month_series ::
  "('v observation list \<Rightarrow> (date \<times> int) list) \<Rightarrow> nat \<Rightarrow> 'v observation list \<Rightarrow> (string \<times> int) list" where
  "month_series agg M obs =
     map (\<lambda>e. (strftime_Ym (fst e), snd e)) (filter_month M (resample_M_sum (agg obs)))"

definition stacks :: "'v observation list \<Rightarrow> (string \<times> int) list" where
  "stacks obs = month_series groupby_count 4 obs"

definition facilities :: "'v observation list \<Rightarrow> (string \<times> int) list" where
  "facilities obs = month_series groupby_nunique 4 obs"

subsection \<open>The two reference lines\<close>

text \<open>\<open>Series.mean()\<close>: NaN on an empty column.\<close>

definition mean :: "int list \<Rightarrow> fl" where
  "mean vs = (if vs = [] then NaN else Num (of_int (sum_list vs) / of_nat (length vs)))"

definition trend :: "(string \<times> int) list \<Rightarrow> fl" where
  "trend s = mean (map snd s)"

text \<open>\<open>frame.loc[label]\<close> raises KeyError when the label is not in the index.\<close>

fun loc :: "(string \<times> 'a) list \<Rightarrow> string \<Rightarrow> error + 'a" where
  "loc [] l = Inl (KeyError l)"
| "loc (e # s) l = (if fst e = l then Inr (snd e) else loc s l)"

text \<open>
  \<open>pd.concat([stacks.loc["2017-04"], stacks.loc["2018-04"], stacks.loc["2019-04"]])\<close>
  and the mean of the result; Python evaluates the three lookups from left to right.
\<close>

definition trend_month :: "(string \<times> int) list \<Rightarrow> error + fl" where
  "trend_month s =
     (case loc s ''2017-04'' of Inl e \<Rightarrow> Inl e
      | Inr a \<Rightarrow>
        (case loc s ''2018-04'' of Inl e \<Rightarrow> Inl e
         | Inr b \<Rightarrow>
           (case loc s ''2019-04'' of Inl e \<Rightarrow> Inl e
            | Inr c \<Rightarrow> Inr (mean [a, b, c]))))"


text \<open>
  \<open>ax = stacks.plot(kind='bar', ...)\<close>: the bar chart of the series. The drawing itself
  is outside the model; what matters to the cell is that the call raises on a frame
  with no row.
\<close>

definition plot_bar :: "(string \<times> int) list \<Rightarrow> error + unit" where
  "plot_bar s = (if s = [] then Inl PlotError else Inr ())"

text \<open>
  A trend cell as a whole, in the order of its statements: the series, its bar chart,
  the mean of all its values, and the mean of the three fixed Aprils. A failing
  statement ends the cell with its exception.
\<close>

definition trend_cell ::
  "('v observation list \<Rightarrow> (date \<times> int) list) \<Rightarrow> 'v observation list \<Rightarrow>
     error + ((string \<times> int) list \<times> fl \<times> fl)" where
  "trend_cell agg obs =
     (let s = month_series agg 4 obs
      in case plot_bar s of
           Inl e \<Rightarrow> Inl e
         | Inr ax \<Rightarrow>
           (let t = trend s
            in case trend_month s of Inl e \<Rightarrow> Inl e | Inr tm \<Rightarrow> Inr (s, t, tm)))"

subsection \<open>Vocabulary of the specification\<close>

text \<open>
  The month \<open>k\<close> (counted from year 0) lies between the month of the earliest and the
  month of the latest observation.
\<close>

definition in_span :: "'v observation list \<Rightarrow> nat \<Rightarrow> bool" where
  "in_span obs k =
     (list_ex (\<lambda>r. month_index (stamp r) \<le> k) obs \<and> list_ex (\<lambda>r. k \<le> month_index (stamp r)) obs)"

text \<open>The observations of one year-month bucket.\<close>

definition bucket :: "'v observation list \<Rightarrow> nat \<Rightarrow> nat \<Rightarrow> 'v observation list" where
  "bucket obs y m = [r \<leftarrow> obs. year (stamp r) = y \<and> month (stamp r) = m]"

text \<open>The specification's \<open>countDistinct\<close>: the distinct identifiers of a bucket.\<close>

definition countDistinct_spec :: "'v observation list \<Rightarrow> nat \<Rightarrow> nat \<Rightarrow> int" where
  "countDistinct_spec obs y m = int (length (remdups (map ident (bucket obs y m))))"

text \<open>The specification's \<open>recentMean\<close>: the mean of the last three entries of the series.\<close>

definition recentMean_spec :: "(string \<times> int) list \<Rightarrow> fl" where
  "recentMean_spec s = mean (map snd (drop (length s - 3) s))"

text \<open>
  Modelled from the spec: the \<open>sum\<close> aggregator of its section 4.1, which no cell of the
  notebook uses (the cells count, count distinct identifiers, or take a median). It sums
  the non-null entries of the column per date, as \<open>groupby([DATE])[COL].sum()\<close> would.
\<close>

definition groupby_sum :: "int observation list \<Rightarrow> (date \<times> int) list" where
  "groupby_sum obs =
     map (\<lambda>d. (d, sum_list (map (\<lambda>r. case counted r of None \<Rightarrow> 0 | Some v \<Rightarrow> v)
                               [r \<leftarrow> obs. stamp r = d]))) (group_dates obs)"

section \<open>The facility join and the map cell\<close>

text \<open>
  The facility table fetched from \<open>ECHO_EXPORTER\<close>, indexed by \<open>AIR_IDS\<close> or \<open>NPDES_IDS\<close>:
  a list of identifier and fields, since an identifier may occur on several rows.
\<close>

record fac_fields =
  FAC_NAME :: "string option"
  FAC_LAT :: fl
  FAC_LONG :: fl
  QTRS_WITH_NC :: fl

definition nan_fields :: fac_fields where
  "nan_fields = \<lparr>FAC_NAME = None, FAC_LAT = NaN, FAC_LONG = NaN, QTRS_WITH_NC = NaN\<rparr>"

text \<open>
  \<open>latest.join(echo_data)\<close>: \<open>DataFrame.join\<close> joins on the index with \<open>how='left'\<close>
  unless told otherwise, and the notebook passes no \<open>how\<close>.
\<close>

definition join ::
  "'v observation list \<Rightarrow> (string \<times> fac_fields) list \<Rightarrow> ('v observation \<times> fac_fields) list" where
  "join left right =
     concat (map (\<lambda>r. case map snd [e \<leftarrow> right. fst e = ident r] of
                         [] \<Rightarrow> [(r, nan_fields)]
                       | f # fs \<Rightarrow> map (Pair r) (f # fs)) left)"

text \<open>The variable \<open>latest\<close> holds the selected violation rows, or the joined frame.\<close>

datatype 'v frame =
  Violations "'v observation list"
| Merged "('v observation \<times> fac_fields) list"

datatype 'v printed = Notice string | Table "'v frame"

definition between_dates :: "date \<Rightarrow> date \<Rightarrow> 'v observation list \<Rightarrow> 'v observation list" where
  "between_dates lo hi obs =
     [r \<leftarrow> obs. date_key lo \<le> date_key (stamp r) \<and> date_key (stamp r) < date_key hi]"

text \<open>
  The cell that selects April 2020 from the air violations and joins the facilities.
  The facility table is fetched only in the first branch.
\<close>

definition latest_air ::
  "(string \<times> fac_fields) list \<Rightarrow> 'v observation list \<Rightarrow> 'v frame \<times> 'v printed list" where
  "latest_air echo_data cps_map =
     (let latest = between_dates (Date 2020 4 1) (Date 2020 5 1) cps_map
      in if length latest > 0 then (Merged (join latest echo_data), [])
         else (Violations latest, [Notice ''Actually, there were no reporting violations for April'']))"

text \<open>The same cell of the water reporting analysis; it also prints the joined frame.\<close>

definition latest_water ::
  "(string \<times> fac_fields) list \<Rightarrow> 'v observation list \<Rightarrow> 'v frame \<times> 'v printed list" where
  "latest_water echo_data data =
     (let latest = between_dates (Date 2019 1 1) (Date 2020 5 1) data
      in if length latest > 0
         then (Merged (join latest echo_data), [Table (Merged (join latest echo_data))])
         else (Violations latest, [Notice ''Actually, there were no reporting violations for April'']))"

fun isnan :: "fl \<Rightarrow> bool" where
  "isnan NaN = True"
| "isnan (Num x) = False"

text \<open>
  The first statement of the map cell,
  \<open>latest = latest[~(np.isnan(latest["FAC_LAT"])) | ~(np.isnan(latest["FAC_LONG"]))]\<close>.
  The column \<open>FAC_LAT\<close> exists only in the joined frame. The rest of the cell (\<open>pd.qcut\<close>
  and the folium markers of \<open>mapper\<close>) works on the frame this statement leaves.
\<close>

definition drop_missing :: "('v observation \<times> fac_fields) list \<Rightarrow> ('v observation \<times> fac_fields) list" where
  "drop_missing rows = [x \<leftarrow> rows. \<not> isnan (FAC_LAT (snd x)) \<or> \<not> isnan (FAC_LONG (snd x))]"

definition latest_mapped :: "'v frame \<Rightarrow> error + ('v observation \<times> fac_fields) list" where
  "latest_mapped latest =
     (case latest of
        Violations rows \<Rightarrow> Inl (KeyError ''FAC_LAT'')
      | Merged rows \<Rightarrow> Inr (drop_missing rows))"

section \<open>Scenarios\<close>

text \<open>
  The April observations of the specification's scenario, with their measured values.
\<close>

definition april_scenario :: "int observation list" where
  "april_scenario =
     [\<lparr>ident = ''NPDES001'', stamp = Date 2018 4 5, counted = Some 3\<rparr>,
      \<lparr>ident = ''NPDES001'', stamp = Date 2018 4 20, counted = Some 2\<rparr>,
      \<lparr>ident = ''NPDES002'', stamp = Date 2019 4 1, counted = Some 5\<rparr>,
      \<lparr>ident = ''NPDES003'', stamp = Date 2020 4 15, counted = Some 1\<rparr>]"

text \<open>One April record in each of 2017, 2018 and 2019, and four in April 2020.\<close>

definition four_aprils :: "int observation list" where
  "four_aprils =
     [\<lparr>ident = ''NPDES001'', stamp = Date 2017 4 30, counted = Some 10\<rparr>,
      \<lparr>ident = ''NPDES001'', stamp = Date 2018 4 30, counted = Some 20\<rparr>,
      \<lparr>ident = ''NPDES001'', stamp = Date 2019 4 30, counted = Some 30\<rparr>,
      \<lparr>ident = ''NPDES001'', stamp = Date 2020 4 28, counted = Some 40\<rparr>,
      \<lparr>ident = ''NPDES002'', stamp = Date 2020 4 29, counted = Some 50\<rparr>,
      \<lparr>ident = ''NPDES003'', stamp = Date 2020 4 30, counted = Some 60\<rparr>,
      \<lparr>ident = ''NPDES004'', stamp = Date 2020 4 30, counted = Some 70\<rparr>]"

text \<open>Records in April 2018 and in April 2020, and none in 2019.\<close>

definition gap_scenario :: "int observation list" where
  "gap_scenario =
     [\<lparr>ident = ''NPDES001'', stamp = Date 2018 4 5, counted = Some 3\<rparr>,
      \<lparr>ident = ''NPDES002'', stamp = Date 2020 4 15, counted = Some 1\<rparr>]"

text \<open>One facility with records on two days of April 2018.\<close>

definition same_facility_twice :: "int observation list" where
  "same_facility_twice =
     [\<lparr>ident = ''NPDES001'', stamp = Date 2018 4 5, counted = Some 3\<rparr>,
      \<lparr>ident = ''NPDES001'', stamp = Date 2018 4 20, counted = Some 2\<rparr>]"

section \<open>Auxiliary facts\<close>

lemma set_group_dates: "set (group_dates obs) = stamp ` set obs"
  by (simp add: group_dates_def)

lemma distinct_group_dates: "distinct (group_dates obs)"
  by (simp add: group_dates_def)

lemma sorted_group_dates: "sorted (map date_key (group_dates obs))"
  by (simp add: group_dates_def)

lemma group_dates_Nil: "group_dates obs = [] \<longleftrightarrow> obs = []"
  using set_group_dates [of obs] by (metis image_is_empty set_empty)

lemma fst_groupby_count: "map fst (groupby_count obs) = group_dates obs"
  by (simp add: groupby_count_def comp_def)


lemma month_index_mono:
  assumes "valid_date a" "valid_date b" "date_key a \<le> date_key b"
  shows "month_index a \<le> month_index b"
  using assms by (auto simp: valid_date_def date_key_def month_index_def)

lemma sorted_hd_last:
  "sorted (map f xs) \<Longrightarrow> x \<in> set xs \<Longrightarrow> f (hd xs) \<le> f x \<and> f x \<le> f (last xs)"
proof (induction xs)
  case Nil
  then show ?case by simp
next
  case (Cons a xs)
  show ?case
  proof (cases "xs = []")
    case True
    with Cons.prems show ?thesis by simp
  next
    case False
    then have l: "last xs \<in> set xs" by simp
    from Cons.prems have s: "sorted (map f xs)" and le: "\<forall>y\<in>set xs. f a \<le> f y" by auto
    show ?thesis
    proof (cases "x = a")
      case True
      with False le l show ?thesis by simp
    next
      case False
      with Cons.prems have "x \<in> set xs" by simp
      with Cons.IH s le \<open>xs \<noteq> []\<close> show ?thesis by simp
    qed
  qed
qed

text \<open>The span of bins, read off the observations.\<close>

lemma span_bounds:
  assumes fst: "map fst s = group_dates obs" and v: "valid_obs obs" and ne: "obs \<noteq> []"
  shows "month_index (fst (hd s)) \<le> k \<and> k \<le> month_index (fst (last s)) \<longleftrightarrow>
         list_ex (\<lambda>r. month_index (stamp r) \<le> k) obs \<and> list_ex (\<lambda>r. k \<le> month_index (stamp r)) obs"
proof -
  let ?ds = "group_dates obs"
  have dne: "?ds \<noteq> []" using ne by (simp add: group_dates_Nil)
  then have sne: "s \<noteq> []" using fst by auto
  have h: "fst (hd s) = hd ?ds" using sne fst by (metis hd_map)
  have l: "fst (last s) = last ?ds" using sne fst by (metis last_map)
  have vd: "\<And>d. d \<in> set ?ds \<Longrightarrow> valid_date d"
    using v by (auto simp: set_group_dates valid_obs_def list_all_iff)
  have hin: "hd ?ds \<in> set ?ds" and lin: "last ?ds \<in> set ?ds" using dne by simp_all
  have bnd: "month_index (hd ?ds) \<le> month_index d \<and> month_index d \<le> month_index (last ?ds)"
    if "d \<in> set ?ds" for d
  proof -
    from sorted_hd_last [OF sorted_group_dates that]
    have "date_key (hd ?ds) \<le> date_key d" "date_key d \<le> date_key (last ?ds)" by simp_all
    then show ?thesis using month_index_mono vd that hin lin by blast
  qed
  show ?thesis
  proof
    assume a: "month_index (fst (hd s)) \<le> k \<and> k \<le> month_index (fst (last s))"
    from hin obtain r1 where "r1 \<in> set obs" "hd ?ds = stamp r1" by (auto simp: set_group_dates)
    moreover from lin obtain r2 where "r2 \<in> set obs" "last ?ds = stamp r2" by (auto simp: set_group_dates)
    ultimately show "list_ex (\<lambda>r. month_index (stamp r) \<le> k) obs \<and> list_ex (\<lambda>r. k \<le> month_index (stamp r)) obs"
      using a h l unfolding list_ex_iff by auto
  next
    assume "list_ex (\<lambda>r. month_index (stamp r) \<le> k) obs \<and> list_ex (\<lambda>r. k \<le> month_index (stamp r)) obs"
    then obtain r1 r2 where r: "r1 \<in> set obs" "month_index (stamp r1) \<le> k" "r2 \<in> set obs" "k \<le> month_index (stamp r2)"
      unfolding list_ex_iff by auto
    then have "stamp r1 \<in> set ?ds" "stamp r2 \<in> set ?ds" by (simp_all add: set_group_dates)
    from bnd [OF this(1)] bnd [OF this(2)] r show "month_index (fst (hd s)) \<le> k \<and> k \<le> month_index (fst (last s))"
      using h l by simp
  qed
qed

lemma fst_resample:
  "map fst (resample_M_sum s) =
     (if s = [] then []
      else map (\<lambda>k. (k div 12, k mod 12 + 1))
             [month_index (fst (hd s)) ..< Suc (month_index (fst (last s)))])"
  by (simp add: resample_M_sum_def comp_def)

lemma fst_filter_month:
  "map fst (filter_month M (resample_M_sum s)) =
     (if s = [] then []
      else map (\<lambda>k. (k div 12, k mod 12 + 1))
             [k \<leftarrow> [month_index (fst (hd s)) ..< Suc (month_index (fst (last s)))]. k mod 12 + 1 = M])"
  by (simp add: resample_M_sum_def filter_month_def filter_map comp_def)

lemma month_of_index:
  "k mod 12 + 1 = M \<and> y = k div 12 \<longleftrightarrow> 1 \<le> M \<and> M \<le> 12 \<and> k = 12 * y + (M - 1)" for k :: nat
proof
  assume a: "k mod 12 + 1 = M \<and> y = k div 12"
  have "k mod 12 < 12" by simp
  moreover have "12 * (k div 12) + k mod 12 = k" by (rule mult_div_mod_eq)
  ultimately show "1 \<le> M \<and> M \<le> 12 \<and> k = 12 * y + (M - 1)" using a by linarith
next
  assume a: "1 \<le> M \<and> M \<le> 12 \<and> k = 12 * y + (M - 1)"
  then have lt: "M - 1 < 12" by linarith
  from a have k: "k = (M - 1) + 12 * y" by simp
  have "k mod 12 = M - 1" unfolding k using lt by simp
  moreover have "k div 12 = y" unfolding k using lt by simp
  ultimately show "k mod 12 + 1 = M \<and> y = k div 12" using a by simp
qed

lemma div_less_of_mod_eq:
  fixes a b :: nat
  assumes "a mod 12 = b mod 12" "a < b" shows "a div 12 < b div 12"
proof -
  have "12 * (a div 12) + a mod 12 = a" "12 * (b div 12) + b mod 12 = b"
    by (rule mult_div_mod_eq)+
  with assms show ?thesis by linarith
qed

lemma period_in_series:
  assumes "map fst (agg obs) = group_dates obs" "valid_obs obs"
  shows "(y, m) \<in> set (map fst (filter_month M (resample_M_sum (agg obs)))) \<longleftrightarrow>
         m = M \<and> 1 \<le> M \<and> M \<le> 12 \<and> in_span obs (12 * y + (M - 1))"
proof (cases "obs = []")
  case True
  then have "agg obs = []" using assms(1) by (simp add: group_dates_def)
  then show ?thesis using True by (simp add: filter_month_def resample_M_sum_def in_span_def)
next
  case False
  then have ne: "agg obs \<noteq> []" using assms(1) group_dates_Nil [of obs] by auto
  let ?lo = "month_index (fst (hd (agg obs)))" and ?hi = "month_index (fst (last (agg obs)))"
  have "(y, m) \<in> set (map fst (filter_month M (resample_M_sum (agg obs)))) \<longleftrightarrow>
        (\<exists>k. ?lo \<le> k \<and> k \<le> ?hi \<and> k mod 12 + 1 = M \<and> y = k div 12 \<and> m = k mod 12 + 1)"
    unfolding fst_filter_month using ne by auto
  also have "\<dots> \<longleftrightarrow> m = M \<and> (\<exists>k. ?lo \<le> k \<and> k \<le> ?hi \<and> (k mod 12 + 1 = M \<and> y = k div 12))"
    by auto
  also have "\<dots> \<longleftrightarrow> m = M \<and> (\<exists>k. ?lo \<le> k \<and> k \<le> ?hi \<and> (1 \<le> M \<and> M \<le> 12 \<and> k = 12 * y + (M - 1)))"
    unfolding month_of_index ..
  also have "\<dots> \<longleftrightarrow> m = M \<and> 1 \<le> M \<and> M \<le> 12 \<and> (?lo \<le> 12 * y + (M - 1) \<and> 12 * y + (M - 1) \<le> ?hi)"
    by auto
  also have "\<dots> \<longleftrightarrow> m = M \<and> 1 \<le> M \<and> M \<le> 12 \<and> in_span obs (12 * y + (M - 1))"
    unfolding span_bounds [OF assms False] in_span_def ..
  finally show ?thesis .
qed

text \<open>Years strictly increase along the filtered bins.\<close>

lemma years_increasing:
  "sorted_wrt (<) (map fst (map fst (filter_month M (resample_M_sum s))))"
proof -
  have "sorted_wrt (<) (map (\<lambda>k. k div 12) [k \<leftarrow> [lo ..< hi]. k mod 12 + 1 = M])" for lo hi :: nat
  proof -
    have "sorted_wrt (<) [k \<leftarrow> [lo ..< hi]. k mod 12 + 1 = M]"
      by (rule sorted_wrt_filter) (simp add: sorted_wrt_upt)
    then have "sorted_wrt (\<lambda>a b. a div 12 < b div 12) [k \<leftarrow> [lo ..< hi]. k mod 12 + 1 = M]"
    proof (rule sorted_wrt_mono_rel [rotated])
      fix a b :: nat
      assume "a \<in> set [k \<leftarrow> [lo ..< hi]. k mod 12 + 1 = M]" "b \<in> set [k \<leftarrow> [lo ..< hi]. k mod 12 + 1 = M]" "a < b"
      then have "a mod 12 = b mod 12" "a < b" by auto
      then show "a div 12 < b div 12" by (rule div_less_of_mod_eq)
    qed
    then show ?thesis by (simp add: sorted_wrt_map)
  qed
  then show ?thesis unfolding fst_filter_month by (simp add: comp_def del: upt_Suc)
qed

lemma digit_eq_iff: "digit a = digit b \<longleftrightarrow> a mod 10 = b mod 10"
proof -
  have d: "distinct ''0123456789''" by simp
  have l: "a mod 10 < length ''0123456789''" "b mod 10 < length ''0123456789''" by simp_all
  show ?thesis unfolding digit_def by (rule nth_eq_iff_index_eq [OF d l])
qed

lemma four_digits:
  fixes y :: nat
  assumes "y < 10000"
  shows "y = 1000 * (y div 1000 mod 10) + 100 * (y div 100 mod 10) + 10 * (y div 10 mod 10) + y mod 10"
proof -
  have a: "10 * (y div 10) + y mod 10 = y" by (rule mult_div_mod_eq)
  have "y div 10 div 10 = y div 100" by (simp add: div_mult2_eq [symmetric])
  then have b: "10 * (y div 100) + y div 10 mod 10 = y div 10"
    using mult_div_mod_eq [of 10 "y div 10"] by simp
  have "y div 100 div 10 = y div 1000" by (simp add: div_mult2_eq [symmetric])
  then have c: "10 * (y div 1000) + y div 100 mod 10 = y div 100"
    using mult_div_mod_eq [of 10 "y div 100"] by simp
  have "y div 1000 < 10" using assms by simp
  then have f: "y div 1000 mod 10 = y div 1000" by simp
  show ?thesis using a b c f by linarith
qed

lemma two_digits:
  fixes m :: nat
  assumes "m < 100"
  shows "m = 10 * (m div 10 mod 10) + m mod 10"
proof -
  have a: "10 * (m div 10) + m mod 10 = m" by (rule mult_div_mod_eq)
  have "m div 10 < 10" using assms by simp
  then have "m div 10 mod 10 = m div 10" by simp
  then show ?thesis using a by linarith
qed

lemma strftime_Ym_inj:
  assumes "strftime_Ym (y, m) = strftime_Ym (y', m')" "y < 10000" "y' < 10000" "m < 100" "m' < 100"
  shows "y = y' \<and> m = m'"
proof -
  from assms(1) have
    "y div 1000 mod 10 = y' div 1000 mod 10" "y div 100 mod 10 = y' div 100 mod 10"
    "y div 10 mod 10 = y' div 10 mod 10" "y mod 10 = y' mod 10"
    "m div 10 mod 10 = m' div 10 mod 10" "m mod 10 = m' mod 10"
    by (simp_all add: strftime_Ym_def digit_eq_iff)
  then show ?thesis
    using four_digits [OF assms(2)] four_digits [OF assms(3)]
      two_digits [OF assms(4)] two_digits [OF assms(5)] by presburger
qed

text \<open>Looking a label up in a series with distinct labels.\<close>

lemma loc_Inr: "distinct (map fst s) \<Longrightarrow> loc s l = Inr v \<longleftrightarrow> (l, v) \<in> set s"
  by (induction s) (auto simp: rev_image_eqI)

lemma loc_Inl: "loc s l = Inl e \<longleftrightarrow> l \<notin> fst ` set s \<and> e = KeyError l"
  by (induction s) auto

text \<open>Summing the per-date counts of a month gives the month's count.\<close>

lemma sum_length_filter:
  assumes "finite A"
  shows "(\<Sum>d\<in>A. length [r \<leftarrow> obs. f r = d \<and> Q r]) = length [r \<leftarrow> obs. f r \<in> A \<and> Q r]"
proof (induction obs)
  case Nil
  then show ?case by simp
next
  case (Cons r obs)
  have "(\<Sum>d\<in>A. length [x \<leftarrow> r # obs. f x = d \<and> Q x]) =
        (\<Sum>d\<in>A. (if f r = d \<and> Q r then 1 else 0) + length [x \<leftarrow> obs. f x = d \<and> Q x])"
    by (rule sum.cong) auto
  also have "\<dots> = (\<Sum>d\<in>A. if f r = d \<and> Q r then 1 else 0) + length [x \<leftarrow> obs. f x \<in> A \<and> Q x]"
    by (simp add: sum.distrib Cons.IH)
  also have "(\<Sum>d\<in>A. if f r = d \<and> Q r then 1 else 0) = (if f r \<in> A \<and> Q r then 1 else (0::nat))"
  proof (cases "Q r")
    case True
    then show ?thesis using assms by (simp add: sum.delta')
  next
    case False
    then show ?thesis by simp
  qed
  finally show ?case by simp
qed

lemma resample_count_value:
  "(p, v) \<in> set (resample_M_sum (groupby_count obs)) \<Longrightarrow>
   v = int (length [r \<leftarrow> obs. month_index (stamp r) = 12 * fst p + (snd p - 1) \<and> counted r \<noteq> None])"
proof -
  assume a: "(p, v) \<in> set (resample_M_sum (groupby_count obs))"
  let ?ds = "group_dates obs"
  let ?g = "\<lambda>d. length [r \<leftarrow> obs. stamp r = d \<and> counted r \<noteq> None]"
  from a obtain k where p: "p = (k div 12, k mod 12 + 1)"
    and v: "v = sum_list (map snd [e \<leftarrow> groupby_count obs. month_index (fst e) = k])"
    by (auto simp: resample_M_sum_def split: if_splits)
  have k: "12 * fst p + (snd p - 1) = k" unfolding p by simp
  have "map snd [e \<leftarrow> groupby_count obs. month_index (fst e) = k] =
        map (\<lambda>d. int (?g d)) [d \<leftarrow> ?ds. month_index d = k]"
    by (simp add: groupby_count_def filter_map comp_def)
  moreover have "sum_list (map (\<lambda>d. int (?g d)) xs) = int (sum_list (map ?g xs))" for xs
    by (induction xs) simp_all
  ultimately have "v = int (sum_list (map ?g [d \<leftarrow> ?ds. month_index d = k]))"
    using v by simp
  also have "sum_list (map ?g [d \<leftarrow> ?ds. month_index d = k]) = (\<Sum>d\<in>set [d \<leftarrow> ?ds. month_index d = k]. ?g d)"
    by (rule sum_list_distinct_conv_sum_set) (simp add: distinct_group_dates)
  also have "\<dots> = length [r \<leftarrow> obs. stamp r \<in> set [d \<leftarrow> ?ds. month_index d = k] \<and> counted r \<noteq> None]"
    by (rule sum_length_filter) simp
  also have "[r \<leftarrow> obs. stamp r \<in> set [d \<leftarrow> ?ds. month_index d = k] \<and> counted r \<noteq> None] =
             [r \<leftarrow> obs. month_index (stamp r) = k \<and> counted r \<noteq> None]"
    by (rule filter_cong) (auto simp: set_group_dates)
  finally show ?thesis unfolding k .
qed

lemma series_labels:
  "map fst (month_series agg M obs) =
   map strftime_Ym (map fst (filter_month M (resample_M_sum (agg obs))))"
  by (simp add: month_series_def comp_def)

lemma in_span_year:
  assumes "valid_obs obs" "in_span obs (12 * y + m)"
  shows "y < 10000"
proof -
  from assms(2) obtain r where r: "r \<in> set obs" "12 * y + m \<le> month_index (stamp r)"
    by (auto simp: in_span_def list_ex_iff)
  with assms(1) have "valid_date (stamp r)" by (simp add: valid_obs_def list_all_iff)
  then have "month_index (stamp r) < 12 * 10000"
    unfolding valid_date_def month_index_def by linarith
  with r(2) show ?thesis by simp
qed

lemma month_index_eq:
  assumes "valid_date d" "1 \<le> M" "M \<le> 12"
  shows "month_index d = 12 * y + (M - 1) \<longleftrightarrow> year d = y \<and> month d = M"
proof -
  obtain a where a: "month d = Suc a" "a < 12"
    using assms(1) unfolding valid_date_def by (cases "month d") auto
  obtain b where b: "M = Suc b" "b < 12"
    using assms(2,3) by (cases M) auto
  have "12 * year d + a = 12 * y + b \<longleftrightarrow> year d = y \<and> a = b"
    using a(2) b(2) by (cases "year d" y rule: linorder_cases) auto
  then show ?thesis unfolding month_index_def a b by simp
qed

lemma distinct_of_map: "distinct (map f xs) \<Longrightarrow> distinct xs"
  by (simp add: distinct_map)

lemma labels_distinct:
  assumes "map fst (agg obs) = group_dates obs" "valid_obs obs"
  shows "distinct (map fst (month_series agg M obs))"
proof -
  let ?ps = "map fst (filter_month M (resample_M_sum (agg obs)))"
  have "distinct (map fst ?ps)"
    using years_increasing [of M "agg obs"] by (simp add: strict_sorted_iff)
  then have d: "distinct ?ps" by (rule distinct_of_map)
  have inj: "inj_on strftime_Ym (set ?ps)"
  proof (rule inj_onI)
    fix p q assume p: "p \<in> set ?ps" and q: "q \<in> set ?ps" and e: "strftime_Ym p = strftime_Ym q"
    obtain y m where pp: "p = (y, m)" by (cases p)
    obtain y' m' where qq: "q = (y', m')" by (cases q)
    from p pp period_in_series [where agg = agg and obs = obs, OF assms, of y m M]
    have 1: "m \<le> 12" "in_span obs (12 * y + (M - 1))" by blast+
    from q qq period_in_series [where agg = agg and obs = obs, OF assms, of y' m' M]
    have 2: "m' \<le> 12" "in_span obs (12 * y' + (M - 1))" by blast+
    have "y < 10000" "y' < 10000" using in_span_year [OF assms(2)] 1 2 by blast+
    with strftime_Ym_inj [of y m y' m'] e 1 2 pp qq show "p = q" by simp
  qed
  have "distinct (map strftime_Ym ?ps)"
    by (rule distinct_map [THEN iffD2]) (rule conjI [OF d inj])
  then show ?thesis unfolding series_labels .
qed

lemma count_entry_iff:
  assumes v: "valid_obs obs"
  shows "((y, m), v) \<in> set (filter_month M (resample_M_sum (groupby_count obs))) \<longleftrightarrow>
         m = M \<and> 1 \<le> M \<and> M \<le> 12 \<and> in_span obs (12 * y + (M - 1)) \<and>
         v = int (length [r \<leftarrow> bucket obs y M. counted r \<noteq> None])"
proof -
  let ?s = "filter_month M (resample_M_sum (groupby_count obs))"
  note per = period_in_series [where agg = groupby_count and obs = obs, OF fst_groupby_count v]
  have val: "w = int (length [r \<leftarrow> bucket obs y M. counted r \<noteq> None])"
    if "((y, M), w) \<in> set ?s" for w
  proof -
    from that have "(y, M) \<in> set (map fst ?s)" by force
    then have M: "1 \<le> M" "M \<le> 12" using per [of y M M] by simp_all
    from that have "((y, M), w) \<in> set (resample_M_sum (groupby_count obs))"
      by (simp add: filter_month_def)
    from resample_count_value [OF this]
    have "w = int (length [r \<leftarrow> obs. month_index (stamp r) = 12 * y + (M - 1) \<and> counted r \<noteq> None])"
      by simp
    moreover have "[r \<leftarrow> obs. month_index (stamp r) = 12 * y + (M - 1) \<and> counted r \<noteq> None] =
                   [r \<leftarrow> obs. (year (stamp r) = y \<and> month (stamp r) = M) \<and> counted r \<noteq> None]"
    proof (rule filter_cong [OF refl])
      fix r assume "r \<in> set obs"
      with v have "valid_date (stamp r)" by (simp add: valid_obs_def list_all_iff)
      from month_index_eq [OF this M]
      show "(month_index (stamp r) = 12 * y + (M - 1) \<and> counted r \<noteq> None) =
            ((year (stamp r) = y \<and> month (stamp r) = M) \<and> counted r \<noteq> None)" by simp
    qed
    ultimately show ?thesis by (simp add: bucket_def)
  qed
  show ?thesis
  proof
    assume a: "((y, m), v) \<in> set ?s"
    then have "(y, m) \<in> set (map fst ?s)" by force
    with per [of y m M] have p: "m = M" "1 \<le> M" "M \<le> 12" "in_span obs (12 * y + (M - 1))"
      by blast+
    with a val show "m = M \<and> 1 \<le> M \<and> M \<le> 12 \<and> in_span obs (12 * y + (M - 1)) \<and>
         v = int (length [r \<leftarrow> bucket obs y M. counted r \<noteq> None])" by simp
  next
    assume a: "m = M \<and> 1 \<le> M \<and> M \<le> 12 \<and> in_span obs (12 * y + (M - 1)) \<and>
         v = int (length [r \<leftarrow> bucket obs y M. counted r \<noteq> None])"
    then have "(y, M) \<in> set (map fst ?s)" unfolding per [of y M M] by blast
    then obtain w where w: "((y, M), w) \<in> set ?s" by auto
    with val a show "((y, m), v) \<in> set ?s" by simp
  qed
qed

lemma month_series_entry:
  "(l, v) \<in> set (month_series agg M obs) \<longleftrightarrow>
   (\<exists>y m. l = strftime_Ym (y, m) \<and> ((y, m), v) \<in> set (filter_month M (resample_M_sum (agg obs))))"
  by (force simp: month_series_def)

lemma april_scenario_dates:
  "group_dates april_scenario = [Date 2018 4 5, Date 2018 4 20, Date 2019 4 1, Date 2020 4 15]"
  by (simp add: april_scenario_def group_dates_def date_key_def)

lemma april_scenario_sum:
  "groupby_sum april_scenario =
     [(Date 2018 4 5, 3), (Date 2018 4 20, 2), (Date 2019 4 1, 5), (Date 2020 4 15, 1)]"
  unfolding groupby_sum_def april_scenario_dates by (simp add: april_scenario_def)

lemma april_scenario_sum_series:
  "month_series groupby_sum 4 april_scenario = [(''2018-04'', 5), (''2019-04'', 5), (''2020-04'', 1)]"
proof -
  have "filter_month 4 (resample_M_sum (groupby_sum april_scenario)) =
        [((2018, 4), 5), ((2019, 4), 5), ((2020, 4), 1)]"
    unfolding april_scenario_sum by (simp add: resample_M_sum_def month_index_def filter_month_def)
  then show ?thesis by (simp add: month_series_def strftime_Ym_def digit_def)
qed

lemma four_aprils_dates:
  "group_dates four_aprils =
     [Date 2017 4 30, Date 2018 4 30, Date 2019 4 30, Date 2020 4 28, Date 2020 4 29, Date 2020 4 30]"
  by (simp add: four_aprils_def group_dates_def date_key_def)

lemma four_aprils_count:
  "groupby_count four_aprils =
     [(Date 2017 4 30, 1), (Date 2018 4 30, 1), (Date 2019 4 30, 1),
      (Date 2020 4 28, 1), (Date 2020 4 29, 1), (Date 2020 4 30, 2)]"
  unfolding groupby_count_def four_aprils_dates by (simp add: four_aprils_def)

lemma four_aprils_stacks:
  "stacks four_aprils = [(''2017-04'', 1), (''2018-04'', 1), (''2019-04'', 1), (''2020-04'', 4)]"
proof -
  have "filter_month 4 (resample_M_sum (groupby_count four_aprils)) =
        [((2017, 4), 1), ((2018, 4), 1), ((2019, 4), 1), ((2020, 4), 4)]"
    unfolding four_aprils_count by (simp add: resample_M_sum_def month_index_def filter_month_def)
  then show ?thesis by (simp add: stacks_def month_series_def strftime_Ym_def digit_def)
qed

lemma count_series_iff:
  assumes "valid_obs obs"
  shows "(l, v) \<in> set (month_series groupby_count M obs) \<longleftrightarrow>
          (\<exists>y. l = strftime_Ym (y, M) \<and> 1 \<le> M \<and> M \<le> 12 \<and> in_span obs (12 * y + (M - 1)) \<and>
               v = int (length [r \<leftarrow> bucket obs y M. counted r \<noteq> None]))"
  unfolding month_series_entry count_entry_iff [OF assms] by auto

lemma loc_count_series:
  assumes v: "valid_obs obs" and M: "1 \<le> M" "M \<le> 12" and y: "y < 10000"
  shows "loc (month_series groupby_count M obs) (strftime_Ym (y, M)) =
         (if in_span obs (12 * y + (M - 1))
          then Inr (int (length [r \<leftarrow> bucket obs y M. counted r \<noteq> None]))
          else Inl (KeyError (strftime_Ym (y, M))))"
proof (cases "in_span obs (12 * y + (M - 1))")
  case True
  let ?n = "int (length [r \<leftarrow> bucket obs y M. counted r \<noteq> None])"
  have "(strftime_Ym (y, M), ?n) \<in> set (month_series groupby_count M obs)"
    unfolding count_series_iff [OF v] using True M by blast
  moreover have "distinct (map fst (month_series groupby_count M obs))"
    by (rule labels_distinct [where agg = groupby_count and obs = obs, OF fst_groupby_count v])
  ultimately show ?thesis using True by (simp add: loc_Inr)
next
  case False
  have "strftime_Ym (y, M) \<notin> fst ` set (month_series groupby_count M obs)"
  proof
    assume "strftime_Ym (y, M) \<in> fst ` set (month_series groupby_count M obs)"
    then obtain w where "(strftime_Ym (y, M), w) \<in> set (month_series groupby_count M obs)"
      by auto
    then obtain y' where y': "strftime_Ym (y, M) = strftime_Ym (y', M)"
      "in_span obs (12 * y' + (M - 1))"
      unfolding count_series_iff [OF v] by blast
    from in_span_year [OF v y'(2)] have "y' < 10000" .
    with strftime_Ym_inj [OF y'(1) y] M have "y = y'" by simp
    with y'(2) False show False by simp
  qed
  then show ?thesis using False by (simp add: loc_Inl)
qed

lemma april_labels:
  "strftime_Ym (2017, 4) = ''2017-04''" "strftime_Ym (2018, 4) = ''2018-04''"
  "strftime_Ym (2019, 4) = ''2019-04''"
  by (simp_all add: strftime_Ym_def digit_def)

lemma sum_list_divide:
  fixes c :: rat
  shows "(\<Sum>e\<leftarrow>s. of_int (snd e) / c) = of_int (sum_list (map snd s)) / c"
  by (induction s) (simp_all add: add_divide_distrib)

lemma month_series_Nil: "agg [] = [] \<Longrightarrow> month_series agg M [] = []"
  by (simp add: month_series_def filter_month_def resample_M_sum_def)



lemma same_facility_twice_nunique:
  "groupby_nunique same_facility_twice = [(Date 2018 4 5, 1), (Date 2018 4 20, 1)]"
proof -
  have "group_dates same_facility_twice = [Date 2018 4 5, Date 2018 4 20]"
    by (simp add: same_facility_twice_def group_dates_def date_key_def)
  then show ?thesis unfolding groupby_nunique_def by (simp add: same_facility_twice_def)
qed

lemma gap_scenario_stacks:
  "stacks gap_scenario = [(''2018-04'', 1), (''2019-04'', 0), (''2020-04'', 1)]"
proof -
  have "group_dates gap_scenario = [Date 2018 4 5, Date 2020 4 15]"
    by (simp add: gap_scenario_def group_dates_def date_key_def)
  then have "groupby_count gap_scenario = [(Date 2018 4 5, 1), (Date 2020 4 15, 1)]"
    unfolding groupby_count_def by (simp add: gap_scenario_def)
  then have "filter_month 4 (resample_M_sum (groupby_count gap_scenario)) =
        [((2018, 4), 1), ((2019, 4), 0), ((2020, 4), 1)]"
    by (simp add: resample_M_sum_def month_index_def filter_month_def)
  then show ?thesis by (simp add: stacks_def month_series_def strftime_Ym_def digit_def)
qed

section \<open>The recent-trend line\<close>

text \<open>
  Claim C1, as the notebook has it. The yellow line is the mean of the series at the
  three fixed labels 2017-04, 2018-04 and 2019-04, the three Aprils before the year of
  the analysis; the entry of 2020 takes no part in it. When the observations span
  April 2017 to April 2019 it is the mean of the three counts of those Aprils; when one
  of the three labels is missing, the lookup of the first missing one raises KeyError.
\<close>

theorem trend_month_fixed_aprils:
  assumes "valid_obs obs"
  shows "trend_month (stacks obs) =
     (if in_span obs (12 * 2017 + 3) \<and> in_span obs (12 * 2018 + 3) \<and> in_span obs (12 * 2019 + 3)
      then Inr (Num (of_int (int (length [r \<leftarrow> bucket obs 2017 4. counted r \<noteq> None]) +
                            int (length [r \<leftarrow> bucket obs 2018 4. counted r \<noteq> None]) +
                            int (length [r \<leftarrow> bucket obs 2019 4. counted r \<noteq> None])) / 3))
      else Inl (KeyError (if \<not> in_span obs (12 * 2017 + 3) then ''2017-04''
                          else if \<not> in_span obs (12 * 2018 + 3) then ''2018-04''
                          else ''2019-04'')))"
proof -
  have l: "loc (stacks obs) (strftime_Ym (y, 4)) =
         (if in_span obs (12 * y + 3)
          then Inr (int (length [r \<leftarrow> bucket obs y 4. counted r \<noteq> None]))
          else Inl (KeyError (strftime_Ym (y, 4))))" if "y < 10000" for y
    using loc_count_series [OF assms, of 4 y] that by (simp add: stacks_def)
  have l17: "loc (stacks obs) ''2017-04'' =
         (if in_span obs (12 * 2017 + 3)
          then Inr (int (length [r \<leftarrow> bucket obs 2017 4. counted r \<noteq> None]))
          else Inl (KeyError ''2017-04''))"
    using l [of 2017] unfolding april_labels by simp
  have l18: "loc (stacks obs) ''2018-04'' =
         (if in_span obs (12 * 2018 + 3)
          then Inr (int (length [r \<leftarrow> bucket obs 2018 4. counted r \<noteq> None]))
          else Inl (KeyError ''2018-04''))"
    using l [of 2018] unfolding april_labels by simp
  have l19: "loc (stacks obs) ''2019-04'' =
         (if in_span obs (12 * 2019 + 3)
          then Inr (int (length [r \<leftarrow> bucket obs 2019 4. counted r \<noteq> None]))
          else Inl (KeyError ''2019-04''))"
    using l [of 2019] unfolding april_labels by simp
  show ?thesis unfolding trend_month_def l17 l18 l19 by (simp add: mean_def)
qed

theorem trend_month_fixed_aprils_witness:
  "valid_obs four_aprils \<and> trend_month (stacks four_aprils) = Inr (Num 1)"
proof -
  have v: "valid_obs four_aprils"
    by (simp add: valid_obs_def valid_date_def four_aprils_def)
  have s: "in_span four_aprils 24207" "in_span four_aprils 24219" "in_span four_aprils 24231"
    by (simp_all add: in_span_def four_aprils_def month_index_def)
  have b: "length [r \<leftarrow> bucket four_aprils 2017 4. counted r \<noteq> None] = 1"
    "length [r \<leftarrow> bucket four_aprils 2018 4. counted r \<noteq> None] = 1"
    "length [r \<leftarrow> bucket four_aprils 2019 4. counted r \<noteq> None] = 1"
    by (simp_all add: bucket_def four_aprils_def)
  show ?thesis using trend_month_fixed_aprils [OF v] v unfolding b by (simp add: s)
qed

text \<open>
  With records in April 2020 the last three entries of the series are those of 2018,
  2019 and 2020, and their mean differs from the line the notebook draws.
\<close>

theorem recent_mean_not_last_three:
  "trend_month (stacks four_aprils) = Inr (Num 1) \<and> recentMean_spec (stacks four_aprils) = Num 2"
  unfolding four_aprils_stacks by (simp add: trend_month_def recentMean_spec_def mean_def)

section \<open>Counting facilities\<close>

text \<open>
  Claim C2. The facilities cell counts the distinct identifiers of each day and then sums
  the days of a month, so a facility with records on two days of April 2018 counts twice
  in the bar of that month, where the bucket holds one distinct identifier.
\<close>

theorem facilities_counts_facility_twice:
  "facilities same_facility_twice = [(''2018-04'', 2)] \<and>
   countDistinct_spec same_facility_twice 2018 4 = 1"
proof -
  have "filter_month 4 (resample_M_sum (groupby_nunique same_facility_twice)) = [((2018, 4), 2)]"
    unfolding same_facility_twice_nunique
    by (simp add: resample_M_sum_def month_index_def filter_month_def)
  then have "facilities same_facility_twice = [(''2018-04'', 2)]"
    by (simp add: facilities_def month_series_def strftime_Ym_def digit_def)
  moreover have "countDistinct_spec same_facility_twice 2018 4 = 1"
    by (simp add: countDistinct_spec_def bucket_def same_facility_twice_def)
  ultimately show ?thesis by simp
qed

section \<open>The facility join\<close>

lemma join_Cons:
  "join (r # left) right =
     (case map snd [e \<leftarrow> right. fst e = ident r] of
        [] \<Rightarrow> [(r, nan_fields)] | f # fs \<Rightarrow> map (Pair r) (f # fs)) @ join left right"
  by (simp add: join_def)

lemma join_Nil: "join [] right = []"
  by (simp add: join_def)

text \<open>
  Claim C3, as the notebook has it. The join of the violation rows with the facility
  table is a left join on the shared identifier: a violation row appears in the merged
  frame once for each facility row with its identifier, with that row's fields attached,
  and a violation row with no facility row is kept, once, with every facility field
  missing (NaN); it is not dropped.
\<close>

theorem join_is_left_join:
  "((r, f) \<in> set (join left right) \<longleftrightarrow>
      r \<in> set left \<and>
      (if list_ex (\<lambda>e. fst e = ident r) right then (ident r, f) \<in> set right else f = nan_fields)) \<and>
   map fst (join left right) =
     concat (map (\<lambda>r. replicate (max 1 (length [e \<leftarrow> right. fst e = ident r])) r) left)"
proof
  have one: "(r, f) \<in> set (case map snd [e \<leftarrow> right. fst e = ident a] of
                [] \<Rightarrow> [(a, nan_fields)] | g # gs \<Rightarrow> map (Pair a) (g # gs)) \<longleftrightarrow>
             r = a \<and> (if list_ex (\<lambda>e. fst e = ident a) right then (ident a, f) \<in> set right
                      else f = nan_fields)" for a
  proof (cases "[e \<leftarrow> right. fst e = ident a]")
    case Nil
    then have "\<not> list_ex (\<lambda>e. fst e = ident a) right"
      by (simp add: list_ex_iff filter_empty_conv)
    with Nil show ?thesis by auto
  next
    case (Cons e es)
    then have ex: "list_ex (\<lambda>e. fst e = ident a) right"
      by (metis filter_empty_conv list.distinct(1) list_ex_iff)
    have "f \<in> snd ` set [e \<leftarrow> right. fst e = ident a] \<longleftrightarrow> (ident a, f) \<in> set right"
      by force
    with Cons ex show ?thesis by (auto simp: image_iff)
  qed
  show "(r, f) \<in> set (join left right) \<longleftrightarrow>
      r \<in> set left \<and>
      (if list_ex (\<lambda>e. fst e = ident r) right then (ident r, f) \<in> set right else f = nan_fields)"
  proof (induction left)
    case Nil
    show ?case by (simp add: join_Nil)
  next
    case (Cons a left)
    show ?case unfolding join_Cons set_append Un_iff one Cons.IH by auto
  qed
  have len: "map fst (case map snd [e \<leftarrow> right. fst e = ident a] of
                [] \<Rightarrow> [(a, nan_fields)] | g # gs \<Rightarrow> map (Pair a) (g # gs)) =
             replicate (max 1 (length [e \<leftarrow> right. fst e = ident a])) a" for a :: "'a observation"
  proof (cases "[e \<leftarrow> right. fst e = ident a]")
    case Nil
    then show ?thesis by simp
  next
    case (Cons e es)
    then show ?thesis by (simp add: comp_def map_replicate_const)
  qed
  show "map fst (join left right) =
     concat (map (\<lambda>r. replicate (max 1 (length [e \<leftarrow> right. fst e = ident r])) r) left)"
  proof (induction left)
    case Nil
    show ?case by (simp add: join_Nil)
  next
    case (Cons a left)
    show ?case unfolding join_Cons map_append len Cons.IH by simp
  qed
qed


theorem join_is_left_join_witness:
  "(\<lparr>ident = ''NPDES001'', stamp = Date 2020 4 30, counted = Some ''N''\<rparr>,
    \<lparr>FAC_NAME = Some ''Acme Plant'', FAC_LAT = Num 40.1, FAC_LONG = Num (-74.3), QTRS_WITH_NC = Num 2\<rparr>)
   \<in> set (join
       [\<lparr>ident = ''NPDES001'', stamp = Date 2020 4 30, counted = Some ''N''\<rparr>]
       [(''NPDES001'',
         \<lparr>FAC_NAME = Some ''Acme Plant'', FAC_LAT = Num 40.1, FAC_LONG = Num (-74.3), QTRS_WITH_NC = Num 2\<rparr>)])"
  using join_is_left_join
    [of "\<lparr>ident = ''NPDES001'', stamp = Date 2020 4 30, counted = Some ''N''\<rparr>"
        "\<lparr>FAC_NAME = Some ''Acme Plant'', FAC_LAT = Num 40.1, FAC_LONG = Num (-74.3), QTRS_WITH_NC = Num 2\<rparr>"
        "[\<lparr>ident = ''NPDES001'', stamp = Date 2020 4 30, counted = Some ''N''\<rparr>]"
        "[(''NPDES001'',
           \<lparr>FAC_NAME = Some ''Acme Plant'', FAC_LAT = Num 40.1, FAC_LONG = Num (-74.3), QTRS_WITH_NC = Num 2\<rparr>)]"]
  by simp

text \<open>
  The violation row keyed \<open>NPDES999\<close> has no facility row, and stays in the merged frame.
\<close>

theorem join_keeps_unmatched_row:
  "join
     [\<lparr>ident = ''NPDES001'', stamp = Date 2020 4 30, counted = Some ''N''\<rparr>,
      \<lparr>ident = ''NPDES999'', stamp = Date 2020 4 30, counted = Some ''N''\<rparr>]
     [(''NPDES001'',
       \<lparr>FAC_NAME = Some ''Acme Plant'', FAC_LAT = Num 40.1, FAC_LONG = Num (-74.3), QTRS_WITH_NC = Num 2\<rparr>)]
   = [(\<lparr>ident = ''NPDES001'', stamp = Date 2020 4 30, counted = Some ''N''\<rparr>,
       \<lparr>FAC_NAME = Some ''Acme Plant'', FAC_LAT = Num 40.1, FAC_LONG = Num (-74.3), QTRS_WITH_NC = Num 2\<rparr>),
      (\<lparr>ident = ''NPDES999'', stamp = Date 2020 4 30, counted = Some ''N''\<rparr>, nan_fields)]"
  by (simp add: join_def)

section \<open>The entries of the month series\<close>

text \<open>
  Claim C4, as the notebook has it. Resampling makes a bin for every month from the
  earliest to the latest observation, so the series of month \<open>M\<close> has exactly one entry
  for each year whose month \<open>M\<close> lies in that range, whether or not an observation falls
  in it; under the count aggregator its value is the number of non-null records of that
  year and month, which is 0 for a month without records. Every observation's own year
  and month has an entry.
\<close>

theorem month_series_entries:
  assumes "valid_obs obs"
  shows "((l, v) \<in> set (month_series groupby_count M obs) \<longleftrightarrow>
          (\<exists>y. l = strftime_Ym (y, M) \<and> 1 \<le> M \<and> M \<le> 12 \<and> in_span obs (12 * y + (M - 1)) \<and>
               v = int (length [r \<leftarrow> bucket obs y M. counted r \<noteq> None]))) \<and>
         distinct (map fst (month_series groupby_count M obs)) \<and>
         (\<forall>r\<in>set obs. \<exists>v. (strftime_Ym (year (stamp r), month (stamp r)), v)
                           \<in> set (month_series groupby_count (month (stamp r)) obs))"
proof (intro conjI ballI)
  show "(l, v) \<in> set (month_series groupby_count M obs) \<longleftrightarrow>
          (\<exists>y. l = strftime_Ym (y, M) \<and> 1 \<le> M \<and> M \<le> 12 \<and> in_span obs (12 * y + (M - 1)) \<and>
               v = int (length [r \<leftarrow> bucket obs y M. counted r \<noteq> None]))"
    by (rule count_series_iff [OF assms])
  show "distinct (map fst (month_series groupby_count M obs))"
    by (rule labels_distinct [where agg = groupby_count and obs = obs, OF fst_groupby_count assms])
next
  fix r assume r: "r \<in> set obs"
  with assms have "valid_date (stamp r)" by (simp add: valid_obs_def list_all_iff)
  then have m: "1 \<le> month (stamp r)" "month (stamp r) \<le> 12" by (simp_all add: valid_date_def)
  have "in_span obs (month_index (stamp r))"
    unfolding in_span_def list_ex_iff using r by blast
  then have "in_span obs (12 * year (stamp r) + (month (stamp r) - 1))"
    by (simp add: month_index_def)
  with m show "\<exists>v. (strftime_Ym (year (stamp r), month (stamp r)), v)
                 \<in> set (month_series groupby_count (month (stamp r)) obs)"
    unfolding count_series_iff [OF assms] by blast
qed

theorem month_series_entries_witness:
  "valid_obs gap_scenario \<and> (''2019-04'', 0) \<in> set (month_series groupby_count 4 gap_scenario)"
proof -
  have v: "valid_obs gap_scenario"
    by (simp add: valid_obs_def valid_date_def gap_scenario_def)
  have "''2019-04'' = strftime_Ym (2019, 4) \<and> (1::nat) \<le> 4 \<and> (4::nat) \<le> 12 \<and>
        in_span gap_scenario (12 * 2019 + (4 - 1)) \<and>
        (0::int) = int (length [r \<leftarrow> bucket gap_scenario 2019 4. counted r \<noteq> None])"
    by (simp add: strftime_Ym_def digit_def in_span_def bucket_def gap_scenario_def month_index_def)
  then have "\<exists>y. ''2019-04'' = strftime_Ym (y, 4) \<and> (1::nat) \<le> 4 \<and> (4::nat) \<le> 12 \<and>
        in_span gap_scenario (12 * y + (4 - 1)) \<and>
        (0::int) = int (length [r \<leftarrow> bucket gap_scenario y 4. counted r \<noteq> None])"
    by (rule exI)
  with month_series_entries [OF v, of "''2019-04''" 0 4] v show ?thesis by blast
qed

text \<open>
  The series of the records of April 2018 and April 2020 has an entry for 2019, a year
  with no record in April.
\<close>

theorem entry_for_dataless_year:
  "stacks gap_scenario = [(''2018-04'', 1), (''2019-04'', 0), (''2020-04'', 1)] \<and>
   bucket gap_scenario 2019 4 = []"
  using gap_scenario_stacks by (simp add: bucket_def gap_scenario_def)



text \<open>
  Claim C6. The red line is the mean of the values of the series, each entry with the
  same weight, the reciprocal of the number of entries; on the scenario's April
  observations, summed per month, it is 11/3.
\<close>

theorem trend_is_unweighted_mean:
  "trend (month_series agg M obs) =
     (if month_series agg M obs = [] then NaN
      else Num (\<Sum>e\<leftarrow>month_series agg M obs.
                  of_int (snd e) / of_nat (length (month_series agg M obs)))) \<and>
   month_series groupby_sum 4 april_scenario =
     [(''2018-04'', 5), (''2019-04'', 5), (''2020-04'', 1)] \<and>
   trend (month_series groupby_sum 4 april_scenario) = Num (11 / 3)"
proof -
  have "trend s = (if s = [] then NaN else Num (\<Sum>e\<leftarrow>s. of_int (snd e) / of_nat (length s)))"
    for s :: "(string \<times> int) list"
    unfolding sum_list_divide by (simp add: trend_def mean_def)
  moreover have "trend (month_series groupby_sum 4 april_scenario) = Num (11 / 3)"
    unfolding april_scenario_sum_series by (simp add: trend_def mean_def)
  ultimately show ?thesis using april_scenario_sum_series by blast
qed

text \<open>
  Claim C7. The bins kept by the month filter are in chronological order with strictly
  increasing years, the labels of the series are the labels of these bins in that order,
  and no label occurs twice.
\<close>

theorem month_series_sorted_unique:
  assumes "map fst (agg obs) = group_dates obs" "valid_obs obs"
  shows "sorted_wrt (<) (map fst (map fst (filter_month M (resample_M_sum (agg obs))))) \<and>
         sorted_wrt (<) (map fst (filter_month M (resample_M_sum (agg obs)))) \<and>
         map fst (month_series agg M obs) =
           map strftime_Ym (map fst (filter_month M (resample_M_sum (agg obs)))) \<and>
         distinct (map fst (month_series agg M obs))"
proof -
  let ?ps = "map fst (filter_month M (resample_M_sum (agg obs)))"
  have y: "sorted_wrt (<) (map fst ?ps)" by (rule years_increasing)
  then have "sorted_wrt (\<lambda>p q. fst p < fst q) ?ps" by (simp add: sorted_wrt_map)
  then have "sorted_wrt (<) ?ps"
    by (rule sorted_wrt_mono_rel [rotated]) (auto simp: less_prod_def)
  with y series_labels [of agg M obs] labels_distinct [where agg = agg and obs = obs, OF assms, of M] show ?thesis by simp
qed

theorem month_series_sorted_unique_witness:
  "valid_obs four_aprils \<and> distinct (map fst (stacks four_aprils)) \<and>
   sorted_wrt (<) (map fst (map fst (filter_month 4 (resample_M_sum (groupby_count four_aprils)))))"
proof -
  have v: "valid_obs four_aprils"
    by (simp add: valid_obs_def valid_date_def four_aprils_def)
  from month_series_sorted_unique [where agg = groupby_count and obs = four_aprils,
      OF fst_groupby_count v, of 4]
  show ?thesis unfolding stacks_def using v by blast
qed

section \<open>Empty input\<close>

text \<open>
  Claim C8, as the notebook has it. On an empty frame the series is empty, and the cell
  then ends with the exception of its bar chart, before the mean of all values or the
  mean of the three fixed Aprils is computed: it returns no pair of means.
\<close>

theorem empty_input:
  "month_series groupby_count M ([] :: 'v observation list) = [] \<and>
   month_series groupby_nunique M ([] :: 'v observation list) = [] \<and>
   plot_bar (stacks ([] :: 'v observation list)) = Inl PlotError \<and>
   trend_cell groupby_count ([] :: 'v observation list) = Inl PlotError \<and>
   trend_cell groupby_nunique ([] :: 'v observation list) = Inl PlotError"
proof -
  have c: "month_series groupby_count M ([] :: 'v observation list) = []" for M
    by (rule month_series_Nil) (simp add: groupby_count_def group_dates_def)
  have n: "month_series groupby_nunique M ([] :: 'v observation list) = []" for M
    by (rule month_series_Nil) (simp add: groupby_nunique_def group_dates_def)
  show ?thesis
    by (simp add: c n stacks_def trend_cell_def plot_bar_def)
qed

text \<open>
  The stack-test cell on the empty frame does not return an empty series with two NaN
  means.
\<close>

theorem empty_input_raises:
  "trend_cell groupby_count ([] :: string observation list) \<noteq> Inr ([], NaN, NaN) \<and>
   trend_cell groupby_count ([] :: string observation list) = Inl PlotError"
proof -
  have "month_series groupby_count 4 ([] :: string observation list) = []"
    by (rule month_series_Nil) (simp add: groupby_count_def group_dates_def)
  then show ?thesis by (simp add: trend_cell_def plot_bar_def)
qed

section \<open>The guard on an empty selection\<close>

text \<open>
  Claim C9. When no row of the air violations lies in April 2020, the cell skips the
  facility fetch and the join and prints its notice. The map cell that follows has no
  guard: it reads the column \<open>FAC_LAT\<close>, which only the join would have added, and ends
  with a KeyError. The cell of the water analysis behaves in the same way.
\<close>

theorem empty_selection_then_map_fails:
  "latest_air []
     [\<lparr>ident = ''110000012345'', stamp = Date 2019 4 10, counted = Some ''Particulate Matter''\<rparr>]
   = (Violations [], [Notice ''Actually, there were no reporting violations for April'']) \<and>
   latest_mapped (fst (latest_air []
     [\<lparr>ident = ''110000012345'', stamp = Date 2019 4 10, counted = Some ''Particulate Matter''\<rparr>]))
   = Inl (KeyError ''FAC_LAT'') \<and>
   latest_mapped (fst (latest_water [] ([] :: string observation list)))
   = Inl (KeyError ''FAC_LAT'')"
  by (simp add: latest_air_def latest_water_def between_dates_def date_key_def latest_mapped_def)

section \<open>The missing-coordinate filter\<close>

text \<open>
  Claim C10. The first statement of the map cell keeps a row of the joined frame if and
  only if its latitude or its longitude is not NaN: the rows it removes are exactly those
  with both coordinates missing, so a row with one coordinate missing stays in the frame
  the markers are drawn from.
\<close>

theorem drop_missing_keeps_iff:
  "latest_mapped (Merged rows) = Inr (drop_missing rows) \<and>
   (x \<in> set (drop_missing rows) \<longleftrightarrow>
      x \<in> set rows \<and> (FAC_LAT (snd x) \<noteq> NaN \<or> FAC_LONG (snd x) \<noteq> NaN)) \<and>
   (x \<in> set rows \<and> x \<notin> set (drop_missing rows) \<longleftrightarrow>
      x \<in> set rows \<and> FAC_LAT (snd x) = NaN \<and> FAC_LONG (snd x) = NaN)"
proof -
  have n: "isnan v \<longleftrightarrow> v = NaN" for v by (cases v) simp_all
  show ?thesis by (auto simp: latest_mapped_def drop_missing_def n)
qed

theorem drop_missing_keeps_iff_witness:
  "(\<lparr>ident = ''NPDES001'', stamp = Date 2020 4 30, counted = Some ''N''\<rparr>,
    \<lparr>FAC_NAME = Some ''Acme Plant'', FAC_LAT = NaN, FAC_LONG = Num (-74.3), QTRS_WITH_NC = Num 2\<rparr>)
   \<in> set (drop_missing
       [(\<lparr>ident = ''NPDES001'', stamp = Date 2020 4 30, counted = Some ''N''\<rparr>,
         \<lparr>FAC_NAME = Some ''Acme Plant'', FAC_LAT = NaN, FAC_LONG = Num (-74.3), QTRS_WITH_NC = Num 2\<rparr>),
        (\<lparr>ident = ''NPDES999'', stamp = Date 2020 4 30, counted = Some ''N''\<rparr>, nan_fields)])"
  using drop_missing_keeps_iff
    [of "[(\<lparr>ident = ''NPDES001'', stamp = Date 2020 4 30, counted = Some ''N''\<rparr>,
         \<lparr>FAC_NAME = Some ''Acme Plant'', FAC_LAT = NaN, FAC_LONG = Num (-74.3), QTRS_WITH_NC = Num 2\<rparr>),
        (\<lparr>ident = ''NPDES999'', stamp = Date 2020 4 30, counted = Some ''N''\<rparr>, nan_fields)]"
        "(\<lparr>ident = ''NPDES001'', stamp = Date 2020 4 30, counted = Some ''N''\<rparr>,
    \<lparr>FAC_NAME = Some ''Acme Plant'', FAC_LAT = NaN, FAC_LONG = Num (-74.3), QTRS_WITH_NC = Num 2\<rparr>)"]
  by simp

end
